theory Spec2Isabelle
  imports Main "HOL-Library.Word"
begin

unbundle bit_operations_syntax

section \<open>smcPrime: the header \<open>smcprime.h\<close> as HOL functions\<close>

text \<open>
  Machine integers are words: \<open>uint32_t\<close> is \<open>32 word\<close>, \<open>uint64_t\<close> is \<open>64 word\<close> and
  \<open>__uint128_t\<close> is \<open>128 word\<close>; \<open>+\<close>, \<open>-\<close>, \<open>*\<close> wrap, \<open>mod\<close> is the unsigned remainder,
  \<open>drop_bit\<close> is \<open>>>\<close>, \<open>push_bit\<close> is \<open><<\<close>, \<open>ucast\<close> is a conversion between widths.
  A remainder by zero is undefined behaviour in C and \<open>x mod 0 = x\<close> in HOL; every
  statement below keeps the modulus at least 3, as every caller in the header does.

  The header has two bodies for four functions, chosen by the preprocessor test
  \<open>#if defined(__SIZEOF_INT128__)\<close>. The functions that contain the test take its
  outcome as their first argument \<open>int128\<close>: \<open>True\<close> is the branch that uses
  \<open>__uint128_t\<close>, \<open>False\<close> is the \<open>#else\<close> branch built from 32-bit halves.
\<close>

type_synonym u8 = "8 word"
type_synonym u32 = "32 word"
type_synonym u64 = "64 word"
type_synonym u128 = "128 word"

subsection \<open>32-bit primality testing\<close>

definition smc_mulmod32 :: "u32 \<Rightarrow> u32 \<Rightarrow> u32 \<Rightarrow> u32" where
  "smc_mulmod32 a b m = ucast (((ucast a :: u64) * (ucast b :: u64)) mod (ucast m :: u64))"

text \<open>The loop of \<open>smc_powmod32\<close>: \<open>while (b) { ... }\<close> over the state \<open>(r, a, b)\<close>.\<close>

function smc_powmod32_loop :: "u32 \<Rightarrow> u32 \<Rightarrow> u32 \<Rightarrow> u32 \<Rightarrow> u32" where
  "smc_powmod32_loop r a b m =
     (if b = 0 then r
      else smc_powmod32_loop
             (if b AND 1 \<noteq> 0 then smc_mulmod32 r a m else r)
             (if drop_bit 1 b \<noteq> 0 then smc_mulmod32 a a m else a)
             (drop_bit 1 b) m)"
  by pat_completeness auto
termination
proof (relation "measure (\<lambda>(r, a, b, m). unat b)")
  show "wf (measure (\<lambda>(r :: u32, a :: u32, b :: u32, m :: u32). unat b))"
    by simp
next
  fix r a b m :: u32
  assume "b \<noteq> 0"
  then have "0 < unat b"
    by (simp add: unat_gt_0)
  then have "unat b div 2 < unat b"
    by simp
  moreover have "unat (drop_bit 1 b) = unat b div 2"
    by (simp add: drop_bit_eq_div unat_div)
  ultimately show "((if b AND 1 \<noteq> 0 then smc_mulmod32 r a m else r,
               if drop_bit 1 b \<noteq> 0 then smc_mulmod32 a a m else a,
               drop_bit 1 b, m), (r, a, b, m))
             \<in> measure (\<lambda>(r, a, b, m). unat b)"
    by simp
qed

definition smc_powmod32 :: "u32 \<Rightarrow> u32 \<Rightarrow> u32 \<Rightarrow> u32" where
  "smc_powmod32 a b m = smc_powmod32_loop 1 (a mod m) b m"

text \<open>
  \<open>while ((d & 1) == 0) { d >>= 1; s++; }\<close>, the loop that both strong-Fermat
  routines run on \<open>d = n - 1\<close>. At \<open>d = 0\<close> the C loop never exits; here that is the
  value \<open>None\<close>.
\<close>

partial_function (option) smc_sprp_split :: "'a::len word \<Rightarrow> u32 \<Rightarrow> ('a word \<times> u32) option" where
  "smc_sprp_split d s =
     (if d AND 1 = 0 then smc_sprp_split (drop_bit 1 d) (s + 1) else Some (d, s))"

text \<open>\<open>for (uint32_t r = 1; r < s; r++) { ... }\<close> of \<open>smc_sprp32\<close>, entered at \<open>r\<close>.\<close>

function smc_sprp32_loop :: "u32 \<Rightarrow> u32 \<Rightarrow> u32 \<Rightarrow> u32 \<Rightarrow> bool" where
  "smc_sprp32_loop n s r x =
     (if r < s then
        (if smc_mulmod32 x x n = n - 1 then True
         else if smc_mulmod32 x x n = 1 then False
         else smc_sprp32_loop n s (r + 1) (smc_mulmod32 x x n))
      else False)"
  by pat_completeness auto
termination
proof (relation "measure (\<lambda>(n, s, r, x). unat s - unat r)")
  show "wf (measure (\<lambda>(n :: u32, s :: u32, r :: u32, x :: u32). unat s - unat r))"
    by simp
next
  fix n s r x :: u32
  assume "r < s"
  then have "unat r < unat s"
    by (simp add: word_less_nat_alt)
  moreover have "unat s < 2 ^ 32"
    using unsigned_less [of s] by simp
  ultimately have "unat r < unat s \<and> unat (r + 1) = unat r + 1"
    by (simp add: unat_word_ariths)
  then show "((n, s, r + 1, smc_mulmod32 x x n), (n, s, r, x))
             \<in> measure (\<lambda>(n, s, r, x). unat s - unat r)"
    by auto
qed

definition smc_sprp32 :: "u32 \<Rightarrow> u32 \<Rightarrow> bool option" where
  "smc_sprp32 n a =
     (if a mod n = 0 then Some True
      else case smc_sprp_split (n - 1) 0 of
             None \<Rightarrow> None
           | Some (d, s) \<Rightarrow>
               (let x = smc_powmod32 a d n in
                if x = 1 \<or> x = n - 1 then Some True
                else Some (smc_sprp32_loop n s 1 x)))"

text \<open>
  \<open>if (!round) return false; rest\<close> and the short-circuit \<open>&&\<close>: the rest is run only
  after a round that returned true; a round that does not return leaves no result.
\<close>

definition and_then :: "bool option \<Rightarrow> bool option \<Rightarrow> bool option" where
  "and_then round rest =
     (case round of None \<Rightarrow> None | Some False \<Rightarrow> Some False | Some True \<Rightarrow> rest)"

definition smc_is_prime32 :: "u32 \<Rightarrow> bool option" where
  "smc_is_prime32 n =
     (if n < 2 then Some False
      else if n = 2 then Some True
      else if n AND 1 = 0 then Some False
      else if n < 9 then Some True
      else if n mod 3 = 0 then Some False
      else if n mod 5 = 0 then Some False
      else if n mod 7 = 0 then Some False
      else if n = 3215031751 then Some False
      else and_then (smc_sprp32 n 2) (and_then (smc_sprp32 n 7) (smc_sprp32 n 61)))"

text \<open>\<open>while (!smc_is_prime32(n)) { n += 2; if (n < 2) return 0; }\<close> of \<open>smc_next_prime32\<close>.\<close>

function smc_next_prime32_loop :: "u32 \<Rightarrow> u32 option" where
  "smc_next_prime32_loop n =
     (case smc_is_prime32 n of
        None \<Rightarrow> None
      | Some p \<Rightarrow>
          if p then Some n
          else if n + 2 < 2 then Some 0
          else smc_next_prime32_loop (n + 2))"
  by pat_completeness auto
termination
proof (relation "measure (\<lambda>n. 2 ^ 32 - unat n)")
  show "wf (measure (\<lambda>n :: u32. 2 ^ 32 - unat n))"
    by simp
next
  fix n :: u32 and p :: bool
  assume "\<not> n + 2 < 2"
  then have ge: "2 \<le> (unat n + 2) mod 2 ^ 32"
    by (simp add: word_less_nat_alt unat_word_ariths)
  have lt: "unat n < 2 ^ 32"
    using unsigned_less [of n] by simp
  have "unat n + 2 < 2 ^ 32"
  proof (rule ccontr)
    assume "\<not> unat n + 2 < 2 ^ 32"
    then have "(unat n + 2) mod 2 ^ 32 = (unat n + 2 - 2 ^ 32) mod 2 ^ 32"
      by (simp add: le_mod_geq)
    also from lt have "\<dots> = unat n + 2 - 2 ^ 32"
      by simp
    finally show False
      using ge lt by simp
  qed
  then have "unat (n + 2) = unat n + 2"
    by (simp add: unat_word_ariths)
  with \<open>unat n + 2 < 2 ^ 32\<close>
  show "(n + 2, n) \<in> measure (\<lambda>n. 2 ^ 32 - unat n)"
    by simp
qed

definition smc_next_prime32 :: "u32 \<Rightarrow> u32 option" where
  "smc_next_prime32 n =
     (if n \<le> 2 then Some 2
      else if n = 3 then Some 3
      else smc_next_prime32_loop (if n AND 1 = 0 then n + 1 else n))"

text \<open>\<open>while (!smc_is_prime32(n)) { if (n < 3) return 2; n -= 2; }\<close> of \<open>smc_prev_prime32\<close>.\<close>

function smc_prev_prime32_loop :: "u32 \<Rightarrow> u32 option" where
  "smc_prev_prime32_loop n =
     (case smc_is_prime32 n of
        None \<Rightarrow> None
      | Some p \<Rightarrow>
          if p then Some n
          else if n < 3 then Some 2
          else smc_prev_prime32_loop (n - 2))"
  by pat_completeness auto
termination
proof (relation "measure unat")
  show "wf (measure (unat :: u32 \<Rightarrow> nat))"
    by simp
next
  fix n :: u32 and p :: bool
  assume "\<not> n < 3"
  then have "3 \<le> unat n"
    by (simp add: word_less_nat_alt)
  then have "unat (n - 2) = unat n - 2"
    by (simp add: unat_sub word_le_nat_alt)
  with \<open>3 \<le> unat n\<close>
  show "(n - 2, n) \<in> measure unat"
    by simp
qed

definition smc_prev_prime32 :: "u32 \<Rightarrow> u32 option" where
  "smc_prev_prime32 n =
     (if n < 2 then Some 0
      else if n = 2 then Some 2
      else smc_prev_prime32_loop (if n AND 1 = 0 then n - 1 else n))"

subsection \<open>64-bit primality testing (Montgomery arithmetic)\<close>

definition SMC_PRIME_INV64 :: "u64 list" where
  "SMC_PRIME_INV64 =
    [0xAAAAAAAAAAAAAAAB, 0xCCCCCCCCCCCCCCCD, 0x6DB6DB6DB6DB6DB7, 0x2E8BA2E8BA2E8BA3,
     0x4EC4EC4EC4EC4EC5, 0xF0F0F0F0F0F0F0F1, 0x86BCA1AF286BCA1B, 0xD37A6F4DE9BD37A7,
     0x34F72C234F72C235, 0xEF7BDEF7BDEF7BDF, 0x14C1BACF914C1BAD, 0x8F9C18F9C18F9C19,
     0x82FA0BE82FA0BE83, 0x51B3BEA3677D46CF, 0x21CFB2B78C13521D, 0xCBEEA4E1A08AD8F3,
     0x4FBCDA3AC10C9715, 0xF0B7672A07A44C6B, 0x193D4BB7E327A977, 0x7E3F1F8FC7E3F1F9,
     0x9B8B577E613716AF, 0xA3784A062B2E43DB, 0xF47E8FD1FA3F47E9, 0xA3A0FD5C5F02A3A1,
     0x3A4C0A237C32B16D, 0xDAB7EC1DD3431B57, 0x77A04C8F8D28AC43, 0xA6C0964FDA6C0965,
     0x90FDBC090FDBC091, 0x7EFDFBF7EFDFBF7F, 0x03E88CB3C9484E2B, 0xE21A291C077975B9,
     0x3AEF6CA970586723, 0xDF5B0F768CE2CABD, 0x6FE4DFC9BF937F27, 0x5B4FE5E92C0685B5,
     0x1F693A1C451AB30B, 0x8D07AA27DB35A717, 0x882383B30D516325, 0xED6866F8D962AE7B,
     0x3454DCA410F8ED9D, 0x1D7CA632EE936F3F, 0x70BF015390948F41, 0xC96BDB9D3D137E0D,
     0x2697CC8AEF46C0F7, 0xC0E8F2A76E68575B, 0x687763DFDB43BB1F, 0x1B10EA929BA144CB,
     0x1D10C4C0478BBCED, 0x63FB9AEB1FDCD759, 0x64AFAA4F437B2E0F, 0xF010FEF010FEF011,
     0x28CBFBEB9A020A33, 0xFF00FF00FF00FF01, 0xD624FD1470E99CB7, 0x8FB3DDBD6205B5C5,
     0xD57DA36CA27ACDEF, 0xEE70C03B25E4463D, 0xC5B1A6B80749CB29, 0x47768073C9B97113,
     0x2591E94884CE32AD, 0xF02806ABC74BE1FB, 0x7EC3E8F3A7198487, 0x58550F8A39409D09,
     0xEC9E48AE6F71DE15, 0x2FF3A018BFCE8063]"

definition SMC_NUM_PRIME_INV64 :: nat where
  "SMC_NUM_PRIME_INV64 = 66"

definition smc_mont_inv64 :: "u64 \<Rightarrow> u64" where
  "smc_mont_inv64 n =
     (let est0 = (3 * n) XOR 2;
          est1 = (2 - est0 * n) * est0;
          est2 = (2 - est1 * n) * est1;
          est3 = (2 - est2 * n) * est2;
          est4 = (2 - est3 * n) * est3
      in est4)"

text \<open>The low 32 bits of a 64-bit value, as a 64-bit value: \<open>(uint32_t)x\<close> widened again.\<close>

definition lo32 :: "u64 \<Rightarrow> u64" where
  "lo32 x = ucast (ucast x :: u32)"

definition smc_mont_reduce64 :: "bool \<Rightarrow> u64 \<Rightarrow> u64 \<Rightarrow> u64 \<Rightarrow> u64 \<Rightarrow> u64" where
  "smc_mont_reduce64 int128 x_lo x_hi n n_inv =
     (let m = x_lo * n_inv;
          t = (if int128 then ucast (drop_bit 64 ((ucast m :: u128) * (ucast n :: u128)))
               else
                 (let a_lo = lo32 m; a_hi = drop_bit 32 m;
                      b_lo = lo32 n; b_hi = drop_bit 32 n;
                      p0 = a_lo * b_lo; p1 = a_lo * b_hi; p2 = a_hi * b_lo; p3 = a_hi * b_hi;
                      cy = drop_bit 32 (drop_bit 32 p0 + lo32 p1 + lo32 p2)
                  in p3 + drop_bit 32 p1 + drop_bit 32 p2 + cy))
      in if x_hi < t then x_hi - t + n else x_hi - t)"

definition smc_mont_mul64 :: "bool \<Rightarrow> u64 \<Rightarrow> u64 \<Rightarrow> u64 \<Rightarrow> u64 \<Rightarrow> u64" where
  "smc_mont_mul64 int128 a b n n_inv =
     (if int128 then
        (let prod = (ucast a :: u128) * (ucast b :: u128)
         in smc_mont_reduce64 int128 (ucast prod) (ucast (drop_bit 64 prod)) n n_inv)
      else
        (let a_lo = lo32 a; a_hi = drop_bit 32 a;
             b_lo = lo32 b; b_hi = drop_bit 32 b;
             p0 = a_lo * b_lo; p1 = a_lo * b_hi; p2 = a_hi * b_lo; p3 = a_hi * b_hi;
             lo = p0 + push_bit 32 p1 + push_bit 32 p2;
             cy = (if lo < p0 then 1 else 0)
                  + (if drop_bit 32 p0 + lo32 p1 + lo32 p2 \<ge> 0x100000000 then 1 else 0);
             hi = p3 + drop_bit 32 p1 + drop_bit 32 p2 + cy
         in smc_mont_reduce64 int128 lo hi n n_inv))"

text \<open>\<open>for (int i = 0; i < 64; i++) { r <<= 1; if (r >= n) r -= n; }\<close>, entered at \<open>i\<close>.\<close>

function smc_to_mont64_loop :: "nat \<Rightarrow> u64 \<Rightarrow> u64 \<Rightarrow> u64" where
  "smc_to_mont64_loop i r n =
     (if i < 64 then
        smc_to_mont64_loop (i + 1)
          (if push_bit 1 r \<ge> n then push_bit 1 r - n else push_bit 1 r) n
      else r)"
  by pat_completeness auto
termination
  by (relation "measure (\<lambda>(i, r, n). 64 - i)") auto

definition smc_to_mont64 :: "bool \<Rightarrow> u64 \<Rightarrow> u64 \<Rightarrow> u64" where
  "smc_to_mont64 int128 x n =
     (if int128 then ucast (push_bit 64 (ucast x :: u128) mod (ucast n :: u128))
      else smc_to_mont64_loop 0 (x mod n) n)"

definition UINT64_MAX :: u64 where
  "UINT64_MAX = 0xFFFFFFFFFFFFFFFF"

definition smc_mont_one64 :: "u64 \<Rightarrow> u64" where
  "smc_mont_one64 n = (UINT64_MAX mod n) + 1"

text \<open>The loop of \<open>smc_mont_pow64\<close>: \<open>while (exp > 0) { ... }\<close> over \<open>(result, base, exp)\<close>.\<close>

function smc_mont_pow64_loop :: "bool \<Rightarrow> u64 \<Rightarrow> u64 \<Rightarrow> u64 \<Rightarrow> u64 \<Rightarrow> u64 \<Rightarrow> u64" where
  "smc_mont_pow64_loop int128 result base exp n n_inv =
     (if exp > 0 then
        smc_mont_pow64_loop int128
          (if exp AND 1 \<noteq> 0 then smc_mont_mul64 int128 result base n n_inv else result)
          (smc_mont_mul64 int128 base base n n_inv)
          (drop_bit 1 exp) n n_inv
      else result)"
  by pat_completeness auto
termination
proof (relation "measure (\<lambda>(int128, result, base, exp, n, n_inv). unat exp)")
  show "wf (measure (\<lambda>(int128 :: bool, result :: u64, base :: u64, exp :: u64, n :: u64, n_inv :: u64). unat exp))"
    by simp
next
  fix int128 :: bool and result base exp n n_inv :: u64
  assume "0 < exp"
  then have "0 < unat exp"
    by (simp add: word_less_nat_alt)
  then have "unat exp div 2 < unat exp"
    by simp
  moreover have "unat (drop_bit 1 exp) = unat exp div 2"
    by (simp add: drop_bit_eq_div unat_div)
  ultimately show "((int128,
               if exp AND 1 \<noteq> 0 then smc_mont_mul64 int128 result base n n_inv else result,
               smc_mont_mul64 int128 base base n n_inv, drop_bit 1 exp, n, n_inv),
              (int128, result, base, exp, n, n_inv))
             \<in> measure (\<lambda>(int128, result, base, exp, n, n_inv). unat exp)"
    by simp
qed

definition smc_mont_pow64 :: "bool \<Rightarrow> u64 \<Rightarrow> u64 \<Rightarrow> u64 \<Rightarrow> u64 \<Rightarrow> u64 \<Rightarrow> u64" where
  "smc_mont_pow64 int128 base exp n n_inv one = smc_mont_pow64_loop int128 one base exp n n_inv"

text \<open>\<open>for (uint32_t r = 1; r < s; r++) { ... }\<close> of \<open>smc_mont_sprp64\<close>, entered at \<open>r\<close>.\<close>

function smc_mont_sprp64_loop ::
  "bool \<Rightarrow> u64 \<Rightarrow> u64 \<Rightarrow> u64 \<Rightarrow> u64 \<Rightarrow> u32 \<Rightarrow> u32 \<Rightarrow> u64 \<Rightarrow> bool" where
  "smc_mont_sprp64_loop int128 n n_inv one neg_one s r x =
     (if r < s then
        (if smc_mont_mul64 int128 x x n n_inv = neg_one then True
         else if smc_mont_mul64 int128 x x n n_inv = one then False
         else smc_mont_sprp64_loop int128 n n_inv one neg_one s (r + 1)
                (smc_mont_mul64 int128 x x n n_inv))
      else False)"
  by pat_completeness auto
termination
proof (relation "measure (\<lambda>(int128, n, n_inv, one, neg_one, s, r, x). unat s - unat r)")
  show "wf (measure (\<lambda>(int128 :: bool, n :: u64, n_inv :: u64, one :: u64, neg_one :: u64,
                       s :: u32, r :: u32, x :: u64). unat s - unat r))"
    by simp
next
  fix int128 :: bool and n n_inv one neg_one x :: u64 and s r :: u32
  assume "r < s"
  then have "unat r < unat s"
    by (simp add: word_less_nat_alt)
  moreover have "unat s < 2 ^ 32"
    using unsigned_less [of s] by simp
  ultimately have "unat r < unat s \<and> unat (r + 1) = unat r + 1"
    by (simp add: unat_word_ariths)
  then show "((int128, n, n_inv, one, neg_one, s, r + 1, smc_mont_mul64 int128 x x n n_inv),
              (int128, n, n_inv, one, neg_one, s, r, x))
             \<in> measure (\<lambda>(int128, n, n_inv, one, neg_one, s, r, x). unat s - unat r)"
    by auto
qed

definition smc_mont_sprp64 :: "bool \<Rightarrow> u64 \<Rightarrow> u64 \<Rightarrow> u64 \<Rightarrow> u64 \<Rightarrow> bool option" where
  "smc_mont_sprp64 int128 n a n_inv one =
     (case smc_sprp_split (n - 1) 0 of
        None \<Rightarrow> None
      | Some (d, s) \<Rightarrow>
          (let a_mont = smc_to_mont64 int128 (a mod n) n in
           if a_mont = 0 then Some True
           else
             (let x = smc_mont_pow64 int128 a_mont d n n_inv one;
                  neg_one0 = n - one;
                  neg_one = (if neg_one0 \<ge> n then neg_one0 - n else neg_one0)
              in if x = one \<or> x = neg_one then Some True
                 else Some (smc_mont_sprp64_loop int128 n n_inv one neg_one s 1 x))))"

text \<open>
  The trial-division loop of \<open>smc_is_prime64\<close> over the table: it returns from the
  function with a verdict, or runs off the end of the table.
\<close>

datatype trial = Trial_Prime | Trial_Composite | Trial_Passed

fun smc_trial_division64 :: "u64 \<Rightarrow> u64 list \<Rightarrow> trial" where
  "smc_trial_division64 n [] = Trial_Passed"
| "smc_trial_division64 n (p_inv # rest) =
     (if n * p_inv = 1 then Trial_Prime
      else if n * p_inv < n then Trial_Composite
      else smc_trial_division64 n rest)"

text \<open>The witness ladder of \<open>smc_is_prime64\<close>, from \<open>Montgomery setup\<close> to the end.\<close>

definition smc_is_prime64_ladder :: "bool \<Rightarrow> u64 \<Rightarrow> bool option" where
  "smc_is_prime64_ladder int128 n =
     (let n_inv = smc_mont_inv64 n; one = smc_mont_one64 n in
      and_then (smc_mont_sprp64 int128 n 2 n_inv one)
       (if n < 2047 then Some True else
      and_then (smc_mont_sprp64 int128 n 3 n_inv one)
       (if n < 1373653 then Some True else
      and_then (smc_mont_sprp64 int128 n 5 n_inv one)
       (if n < 25326001 then Some True else
      and_then (smc_mont_sprp64 int128 n 7 n_inv one)
       (if n < 3215031751 then Some True else
        if n = 3215031751 then Some False else
      and_then (smc_mont_sprp64 int128 n 11 n_inv one)
       (if n < 2152302898747 then Some True else
      and_then (smc_mont_sprp64 int128 n 13 n_inv one)
       (if n < 3474749660383 then Some True else
      and_then (smc_mont_sprp64 int128 n 17 n_inv one)
       (if n < 341550071728321 then Some True else
      and_then (smc_mont_sprp64 int128 n 19 n_inv one)
      (and_then (smc_mont_sprp64 int128 n 23 n_inv one)
       (if n < 3825123056546413051 then Some True else
      and_then (smc_mont_sprp64 int128 n 29 n_inv one)
      (and_then (smc_mont_sprp64 int128 n 31 n_inv one)
      (and_then (smc_mont_sprp64 int128 n 37 n_inv one)
       (Some True)))))))))))))"

definition smc_is_prime64 :: "bool \<Rightarrow> u64 \<Rightarrow> bool option" where
  "smc_is_prime64 int128 n =
     (if n < 2 then Some False
      else if n = 2 then Some True
      else if n AND 1 = 0 then Some False
      else if n < 9 then Some True
      else if n < 55730344633563600 then
        (case smc_trial_division64 n SMC_PRIME_INV64 of
           Trial_Prime \<Rightarrow> Some True
         | Trial_Composite \<Rightarrow> Some False
         | Trial_Passed \<Rightarrow>
             if n < 109561 then Some True else smc_is_prime64_ladder int128 n)
      else if n mod 3 = 0 then Some False
      else if n mod 5 = 0 then Some False
      else if n mod 7 = 0 then Some False
      else if n mod 11 = 0 then Some False
      else if n mod 13 = 0 then Some False
      else smc_is_prime64_ladder int128 n)"

text \<open>\<open>for (int i = 0; i < 12; i++) if (!smc_mont_sprp64(n, witnesses[i], ...)) return false;\<close>\<close>

fun smc_is_prime64_wc_loop :: "bool \<Rightarrow> u64 \<Rightarrow> u64 \<Rightarrow> u64 \<Rightarrow> u8 list \<Rightarrow> bool option" where
  "smc_is_prime64_wc_loop int128 n n_inv one [] = Some True"
| "smc_is_prime64_wc_loop int128 n n_inv one (w # ws) =
     and_then (smc_mont_sprp64 int128 n (ucast w) n_inv one)
       (smc_is_prime64_wc_loop int128 n n_inv one ws)"

definition witnesses :: "u8 list" where
  "witnesses = [2, 3, 5, 7, 11, 13, 17, 19, 23, 29, 31, 37]"

definition smc_is_prime64_wc :: "bool \<Rightarrow> u64 \<Rightarrow> bool option" where
  "smc_is_prime64_wc int128 n =
     (if n < 2 then Some False
      else if n = 2 then Some True
      else if n AND 1 = 0 then Some False
      else if n < 9 then Some True
      else if n = 3215031751 then Some False
      else smc_is_prime64_wc_loop int128 n (smc_mont_inv64 n) (smc_mont_one64 n) witnesses)"

text \<open>\<open>while (!smc_is_prime64(n)) { n += 2; if (n < 2) return 0; }\<close> of \<open>smc_next_prime64\<close>.\<close>

function smc_next_prime64_loop :: "bool \<Rightarrow> u64 \<Rightarrow> u64 option" where
  "smc_next_prime64_loop int128 n =
     (case smc_is_prime64 int128 n of
        None \<Rightarrow> None
      | Some p \<Rightarrow>
          if p then Some n
          else if n + 2 < 2 then Some 0
          else smc_next_prime64_loop int128 (n + 2))"
  by pat_completeness auto
termination
proof (relation "measure (\<lambda>(int128, n). 2 ^ 64 - unat n)")
  show "wf (measure (\<lambda>(int128 :: bool, n :: u64). 2 ^ 64 - unat n))"
    by simp
next
  fix int128 :: bool and n :: u64 and p :: bool
  assume "\<not> n + 2 < 2"
  then have ge: "2 \<le> (unat n + 2) mod 2 ^ 64"
    by (simp add: word_less_nat_alt unat_word_ariths)
  have lt: "unat n < 2 ^ 64"
    using unsigned_less [of n] by simp
  have "unat n + 2 < 2 ^ 64"
  proof (rule ccontr)
    assume "\<not> unat n + 2 < 2 ^ 64"
    then have "(unat n + 2) mod 2 ^ 64 = (unat n + 2 - 2 ^ 64) mod 2 ^ 64"
      by (simp add: le_mod_geq)
    also from lt have "\<dots> = unat n + 2 - 2 ^ 64"
      by simp
    finally show False
      using ge lt by simp
  qed
  then have "unat (n + 2) = unat n + 2"
    by (simp add: unat_word_ariths)
  with \<open>unat n + 2 < 2 ^ 64\<close>
  show "((int128, n + 2), (int128, n)) \<in> measure (\<lambda>(int128, n). 2 ^ 64 - unat n)"
    by simp
qed

definition smc_next_prime64 :: "bool \<Rightarrow> u64 \<Rightarrow> u64 option" where
  "smc_next_prime64 int128 n =
     (if n \<le> 2 then Some 2
      else if n = 3 then Some 3
      else smc_next_prime64_loop int128 (if n AND 1 = 0 then n + 1 else n))"

text \<open>\<open>while (!smc_is_prime64(n)) { if (n < 3) return 2; n -= 2; }\<close> of \<open>smc_prev_prime64\<close>.\<close>

function smc_prev_prime64_loop :: "bool \<Rightarrow> u64 \<Rightarrow> u64 option" where
  "smc_prev_prime64_loop int128 n =
     (case smc_is_prime64 int128 n of
        None \<Rightarrow> None
      | Some p \<Rightarrow>
          if p then Some n
          else if n < 3 then Some 2
          else smc_prev_prime64_loop int128 (n - 2))"
  by pat_completeness auto
termination
proof (relation "measure (\<lambda>(int128, n). unat n)")
  show "wf (measure (\<lambda>(int128 :: bool, n :: u64). unat n))"
    by simp
next
  fix int128 :: bool and n :: u64 and p :: bool
  assume "\<not> n < 3"
  then have "3 \<le> unat n"
    by (simp add: word_less_nat_alt)
  then have "unat (n - 2) = unat n - 2"
    by (simp add: unat_sub word_le_nat_alt)
  with \<open>3 \<le> unat n\<close>
  show "((int128, n - 2), (int128, n)) \<in> measure (\<lambda>(int128, n). unat n)"
    by simp
qed

definition smc_prev_prime64 :: "bool \<Rightarrow> u64 \<Rightarrow> u64 option" where
  "smc_prev_prime64 int128 n =
     (if n < 2 then Some 0
      else if n = 2 then Some 2
      else smc_prev_prime64_loop int128 (if n AND 1 = 0 then n - 1 else n))"

text \<open>
  The recursion equations of the loops are used one unfolding at a time; they are not
  rewrite rules by default.
\<close>

declare smc_powmod32_loop.simps [simp del]
declare smc_sprp32_loop.simps [simp del]
declare smc_next_prime32_loop.simps [simp del]
declare smc_prev_prime32_loop.simps [simp del]
declare smc_to_mont64_loop.simps [simp del]
declare smc_mont_pow64_loop.simps [simp del]
declare smc_mont_sprp64_loop.simps [simp del]
declare smc_next_prime64_loop.simps [simp del]
declare smc_prev_prime64_loop.simps [simp del]

subsection \<open>What the claims speak of\<close>

text \<open>A prime number: greater than 1, with no divisor but 1 and itself.\<close>

definition prime_number :: "nat \<Rightarrow> bool" where
  "prime_number p \<longleftrightarrow> 1 < p \<and> (\<forall>d. d dvd p \<longrightarrow> d = 1 \<or> d = p)"

text \<open>Primality below \<open>19 * 19\<close>, decided by the divisors below 19.\<close>

definition trial_prime :: "nat \<Rightarrow> bool" where
  "trial_prime n \<longleftrightarrow> 1 < n \<and> (\<forall>d\<in>set [2..<19]. d dvd n \<longrightarrow> d = n)"

section \<open>Arithmetic of the Montgomery engine\<close>

subsection \<open>The inverse modulo \<open>2 ^ 64\<close> by Newton-Hensel lifting\<close>

lemma hensel_step:
  fixes n est :: u64
  shows "1 - n * ((2 - est * n) * est) = (1 - n * est) * (1 - n * est)"
  by (simp add: algebra_simps)

lemma hensel_start_nat:
  fixes k :: nat
  assumes "k < 16" and "odd k"
  shows "(k * (((3 * k) mod 16) XOR 2)) mod 16 = 1"
proof -
  from assms have "k = 1 \<or> k = 3 \<or> k = 5 \<or> k = 7 \<or> k = 9 \<or> k = 11 \<or> k = 13 \<or> k = 15"
    by presburger
  then show ?thesis
    by (elim disjE) simp_all
qed

lemma mod16_of_mod64:
  fixes a :: nat
  shows "(a mod 2 ^ 64) mod 16 = a mod 16"
  by (rule mod_mod_cancel) simp

lemma xor2_mod16:
  fixes a :: nat
  shows "(a XOR 2) mod 16 = (a mod 16) XOR 2"
proof -
  have "take_bit 4 (a XOR 2) = take_bit 4 a XOR take_bit 4 (2::nat)"
    by (rule take_bit_xor)
  then show ?thesis
    by (simp add: take_bit_eq_mod)
qed

lemma hensel_start:
  fixes n :: u64
  assumes "odd (unat n)"
  shows "unat (n * ((3 * n) XOR 2)) mod 16 = 1"
proof -
  define k where "k = unat n mod 16"
  have k: "k < 16" "odd k"
    using assms by (simp_all add: k_def) presburger
  have "unat (3 * n) mod 16 = (3 * unat n) mod 16"
    using mod16_of_mod64 [of "3 * unat n"] by (simp add: unat_word_ariths)
  also have "\<dots> = (3 * k) mod 16"
    by (simp add: k_def mod_mult_right_eq)
  finally have three: "unat (3 * n) mod 16 = (3 * k) mod 16" .
  have "unat ((3 * n) XOR 2) mod 16 = (unat (3 * n) XOR 2) mod 16"
    by (simp add: unsigned_xor_eq)
  also have "\<dots> = (unat (3 * n) mod 16) XOR 2"
    by (rule xor2_mod16)
  finally have est: "unat ((3 * n) XOR 2) mod 16 = ((3 * k) mod 16) XOR 2"
    by (simp add: three)
  have "unat (n * ((3 * n) XOR 2)) mod 16 = (unat n * unat ((3 * n) XOR 2)) mod 16"
    using mod16_of_mod64 [of "unat n * unat ((3 * n) XOR 2)"] by (simp add: unat_word_ariths)
  also have "\<dots> = (k * (unat ((3 * n) XOR 2) mod 16)) mod 16"
    by (simp add: k_def mod_mult_eq)
  finally show ?thesis
    using hensel_start_nat [OF k] by (simp add: est)
qed

lemma sixteen_pow: "((16::u64) * q) ^ 16 = 0"
proof -
  have "((16::u64) * q) ^ 16 = 16 ^ 16 * q ^ 16"
    by (rule power_mult_distrib)
  also have "(16::u64) ^ 16 = 0"
    by simp
  finally show ?thesis by simp
qed

lemma smc_mont_inv64_correct:
  fixes n :: u64
  assumes "odd (unat n)"
  shows "n * smc_mont_inv64 n = 1"
proof -
  define x where "x = n * ((3 * n) XOR 2)"
  define e where "e = 1 - x"
  define q where "q = unat x div 16"
  have "unat x mod 16 = 1"
    unfolding x_def by (rule hensel_start [OF assms])
  then have "unat x = 16 * q + 1"
    unfolding q_def by presburger
  then have "of_nat (unat x) = (of_nat (16 * q + 1) :: u64)"
    by simp
  then have "x = 16 * of_nat q + 1"
    by simp
  then have e16: "e = 16 * (- of_nat q)"
    by (simp add: e_def)
  have s1: "1 - n * ((2 - est * n) * est) = (1 - n * est) ^ 2" for est
    by (simp add: hensel_step power2_eq_square)
  have "1 - n * smc_mont_inv64 n = (((e ^ 2) ^ 2) ^ 2) ^ 2"
    unfolding smc_mont_inv64_def Let_def s1 e_def x_def ..
  also have "\<dots> = e ^ 16"
    by (simp flip: power_mult)
  also have "\<dots> = 0"
    by (subst e16) (rule sixteen_pow)
  finally show ?thesis by simp
qed

subsection \<open>One in Montgomery form\<close>

lemma odd_coprime_pow2:
  fixes N :: nat
  assumes "odd N"
  shows "coprime N (2 ^ k)"
  using assms by simp

lemma pow2_mod_odd_pos:
  fixes N :: nat
  assumes "odd N" and "1 < N"
  shows "0 < 2 ^ k mod N"
proof (rule ccontr)
  assume "\<not> 0 < 2 ^ k mod N"
  then have "N dvd 2 ^ k"
    by (simp add: dvd_eq_mod_eq_0)
  moreover have "coprime N (2 ^ k)"
    using assms(1) by (rule odd_coprime_pow2)
  ultimately have "N dvd 1"
    by (metis coprime_def dvd_refl)
  with assms(2) show False
    by simp
qed

lemma mod_pred:
  fixes a N :: nat
  assumes "0 < a mod N"
  shows "(a - 1) mod N = a mod N - 1"
proof -
  have "a = N * (a div N) + a mod N"
    by simp
  with assms have "a - 1 = (a mod N - 1) + N * (a div N)"
    by arith
  then have "(a - 1) mod N = (a mod N - 1) mod N"
    by (metis mod_mult_self2)
  also have "\<dots> = a mod N - 1"
  proof (cases "N = 0")
    case True
    then show ?thesis by simp
  next
    case False
    then have "a mod N < N" by simp
    then show ?thesis by simp
  qed
  finally show ?thesis .
qed

lemma unat_smc_mont_one64:
  fixes n :: u64
  assumes "odd (unat n)" and "3 \<le> n"
  shows "unat (smc_mont_one64 n) = 2 ^ 64 mod unat n"
proof -
  define N where "N = unat n"
  have N: "odd N" "1 < N" "N < 2 ^ 64"
    using assms unsigned_less [of n] by (simp_all add: N_def word_le_nat_alt)
  have pos: "0 < 2 ^ 64 mod N"
    using N(1,2) by (rule pow2_mod_odd_pos)
  have "unat (UINT64_MAX mod n) = (2 ^ 64 - 1) mod N"
    by (simp add: UINT64_MAX_def unat_mod N_def)
  also have "\<dots> = 2 ^ 64 mod N - 1"
    using pos by (rule mod_pred)
  finally have m: "unat (UINT64_MAX mod n) = 2 ^ 64 mod N - 1" .
  have "2 ^ 64 mod N < N"
    using N(2) by simp
  with N(3) have small: "2 ^ 64 mod N - 1 + 1 < 2 ^ 64"
    by arith
  define w where "w = UINT64_MAX mod n"
  have "unat (w + 1) = (unat w + 1) mod 2 ^ 64"
    by (simp add: unat_word_ariths)
  also have "unat w = 2 ^ 64 mod N - 1"
    unfolding w_def by (rule m)
  also have "(2 ^ 64 mod N - 1 + 1) mod 2 ^ 64 = 2 ^ 64 mod N - 1 + 1"
    using small by (rule mod_less)
  finally have "unat (w + 1) = 2 ^ 64 mod N"
    using pos by simp
  then show ?thesis
    by (simp add: smc_mont_one64_def N_def w_def)
qed

lemma smc_mont_one64_range:
  fixes n :: u64
  assumes "odd (unat n)" and "3 \<le> n"
  shows "1 \<le> smc_mont_one64 n \<and> smc_mont_one64 n \<le> n - 1 \<and> n - smc_mont_one64 n < n"
proof -
  define N where "N = unat n"
  have N: "odd N" "1 < N" "3 \<le> N"
    using assms by (simp_all add: N_def word_le_nat_alt)
  have one: "unat (smc_mont_one64 n) = 2 ^ 64 mod N"
    unfolding N_def using assms by (rule unat_smc_mont_one64)
  have pos: "0 < 2 ^ 64 mod N"
    using N(1,2) by (rule pow2_mod_odd_pos)
  have lt: "2 ^ 64 mod N < N"
    using N(2) by simp
  have n1: "unat (n - 1) = N - 1"
    using assms(2) by (simp add: N_def unat_sub word_le_nat_alt)
  have le: "smc_mont_one64 n \<le> n"
    using lt by (simp add: word_le_nat_alt one N_def)
  have "unat (n - smc_mont_one64 n) = N - 2 ^ 64 mod N"
    using le by (simp add: unat_sub one N_def)
  with pos lt have "unat (n - smc_mont_one64 n) < N"
    by arith
  moreover from pos have "unat (1 :: u64) \<le> unat (smc_mont_one64 n)"
    by (simp add: one)
  moreover from lt have "unat (smc_mont_one64 n) \<le> unat (n - 1)"
    by (simp add: one n1)
  ultimately show ?thesis
    by (simp add: word_le_nat_alt word_less_nat_alt N_def)
qed

subsection \<open>The high half of a 64 by 64 bit product\<close>

lemma unat_lo32: "unat (lo32 x) = unat x mod 2 ^ 32"
  by (simp add: lo32_def unsigned_ucast_eq take_bit_eq_mod unat_mod)

lemma unat_hi32: "unat (drop_bit 32 (x :: u64)) = unat x div 2 ^ 32"
  by (simp add: drop_bit_eq_div unat_div)

lemma unat_mult_small:
  fixes a b :: u64
  assumes "unat a < 2 ^ 32" and "unat b < 2 ^ 32"
  shows "unat (a * b) = unat a * unat b"
proof -
  have "unat a * unat b < 2 ^ 32 * 2 ^ 32"
    using assms by (rule mult_strict_mono') simp_all
  then have "unat a * unat b < 2 ^ 64"
    by simp
  then show ?thesis
    by (simp add: unat_word_ariths)
qed

lemma unat_add_small:
  fixes a b :: u64
  assumes "unat a + unat b < 2 ^ 64"
  shows "unat (a + b) = unat a + unat b"
  using assms by (simp add: unat_word_ariths)

lemma unat_add4:
  fixes a b c d :: u64
  assumes "unat a + unat b + unat c + unat d < 2 ^ 64"
  shows "unat (a + b + c + d) = unat a + unat b + unat c + unat d"
proof -
  have "unat (a + b + c + d) = (unat a + unat b + unat c + unat d) mod 2 ^ 64"
    by (simp add: unat_word_ariths mod_simps)
  with assms show ?thesis
    by simp
qed

text \<open>Schoolbook multiplication in base \<open>B\<close>: the high half of a two-digit product.\<close>

lemma high_half:
  fixes B a0 a1 b0 b1 :: nat
  assumes "0 < B"
  shows "((a1 * B + a0) * (b1 * B + b0)) div (B * B)
         = a1 * b1 + (a0 * b1) div B + (a1 * b0) div B
           + ((a0 * b0) div B + (a0 * b1) mod B + (a1 * b0) mod B) div B"
proof -
  define p0 p1 p2 p3 where "p0 = a0 * b0" and "p1 = a0 * b1" and "p2 = a1 * b0" and "p3 = a1 * b1"
  define r where "r = p0 div B + p1 mod B + p2 mod B"
  have e1: "p1 div B * B + p1 mod B = p1" and e2: "p2 div B * B + p2 mod B = p2"
    by simp_all
  have "(a1 * B + a0) * (b1 * B + b0) = p3 * (B * B) + ((p1 + p2) * B + p0)"
    unfolding p0_def p1_def p2_def p3_def by (simp only: algebra_simps)
  then have "((a1 * B + a0) * (b1 * B + b0)) div (B * B)
             = (p3 * (B * B) + ((p1 + p2) * B + p0)) div (B * B)"
    by (rule arg_cong)
  also have "\<dots> = p3 + ((p1 + p2) * B + p0) div (B * B)"
    using assms by simp
  also have "((p1 + p2) * B + p0) div (B * B) = (((p1 + p2) * B + p0) div B) div B"
    by (rule div_mult2_eq)
  also have "((p1 + p2) * B + p0) div B = p1 + p2 + p0 div B"
    using assms by simp
  also have "p1 + p2 + p0 div B = (p1 div B + p2 div B) * B + r"
    unfolding r_def add_mult_distrib using e1 e2 by linarith
  also have "((p1 div B + p2 div B) * B + r) div B = p1 div B + p2 div B + r div B"
    using assms by simp
  finally show ?thesis
    unfolding p0_def p1_def p2_def p3_def r_def by (simp only: add.assoc)
qed


lemma unat_mul_hi_int128:
  fixes m n :: u64
  shows "unat (ucast (drop_bit 64 ((ucast m :: u128) * (ucast n :: u128))) :: u64)
         = (unat m * unat n) div 2 ^ 64"
proof -
  have m: "unat m < 2 ^ 64" and n: "unat n < 2 ^ 64"
    using unsigned_less [of m] unsigned_less [of n] by simp_all
  have "unat m * unat n < 2 ^ 64 * 2 ^ 64"
    using m n by (rule mult_strict_mono') simp_all
  then have lt: "unat m * unat n < 2 ^ 128"
    by simp
  have um: "unat (ucast m :: u128) = unat m" and un: "unat (ucast n :: u128) = unat n"
    using m n by (simp_all add: unsigned_ucast_eq take_bit_eq_mod)
  have prod: "unat ((ucast m :: u128) * (ucast n :: u128)) = unat m * unat n"
    using lt by (simp add: unat_word_ariths um un)
  have hi: "unat (drop_bit 64 ((ucast m :: u128) * (ucast n :: u128))) = (unat m * unat n) div 2 ^ 64"
    by (simp add: drop_bit_eq_div unat_div prod)
  have "(unat m * unat n) div 2 ^ 64 < 2 ^ 64"
    using lt by (simp add: less_mult_imp_div_less)
  then show ?thesis
    by (simp add: unsigned_ucast_eq take_bit_eq_mod hi)
qed

lemma unat_mul_hi_portable:
  fixes m n :: u64
  shows "unat (drop_bit 32 m * drop_bit 32 n
               + drop_bit 32 (lo32 m * drop_bit 32 n)
               + drop_bit 32 (drop_bit 32 m * lo32 n)
               + drop_bit 32 (drop_bit 32 (lo32 m * lo32 n)
                              + lo32 (lo32 m * drop_bit 32 n)
                              + lo32 (drop_bit 32 m * lo32 n)))
         = (unat m * unat n) div 2 ^ 64"
proof -
  define B :: nat where "B = 2 ^ 32"
  define a0 a1 b0 b1 where "a0 = unat m mod B" and "a1 = unat m div B"
    and "b0 = unat n mod B" and "b1 = unat n div B"
  have B: "0 < B" "B * B = 2 ^ 64"
    by (simp_all add: B_def)
  have m: "unat m < B * B" and n: "unat n < B * B"
    using unsigned_less [of m] unsigned_less [of n] by (simp_all add: B)
  have lt: "a0 < B" "b0 < B" "a1 < B" "b1 < B"
    using B(1) m n by (simp_all add: a0_def b0_def a1_def b1_def less_mult_imp_div_less)
  have ua0: "unat (lo32 m) = a0" and ub0: "unat (lo32 n) = b0"
    and ua1: "unat (drop_bit 32 m) = a1" and ub1: "unat (drop_bit 32 n) = b1"
    by (simp_all add: unat_lo32 unat_hi32 a0_def a1_def b0_def b1_def B_def)
  have small: "x < B \<Longrightarrow> y < B \<Longrightarrow> x * y < B * B" for x y :: nat
    by (rule mult_strict_mono') simp_all
  have p0: "unat (lo32 m * lo32 n) = a0 * b0"
    and p1: "unat (lo32 m * drop_bit 32 n) = a0 * b1"
    and p2: "unat (drop_bit 32 m * lo32 n) = a1 * b0"
    and p3: "unat (drop_bit 32 m * drop_bit 32 n) = a1 * b1"
    using lt by (simp_all add: unat_mult_small ua0 ua1 ub0 ub1 B_def)
  define c where "c = (a0 * b0) div B + (a0 * b1) mod B + (a1 * b0) mod B"
  have f0: "(a0 * b0) div B < B"
    using small [OF lt(1) lt(2)] B(1) by (simp add: less_mult_imp_div_less)
  have f1: "(a0 * b1) mod B < B" and f2: "(a1 * b0) mod B < B"
    using B(1) by simp_all
  have c3: "c < 3 * B"
    unfolding c_def using f0 f1 f2 by linarith
  have uc: "unat (drop_bit 32 (lo32 m * lo32 n) + lo32 (lo32 m * drop_bit 32 n)
                  + lo32 (drop_bit 32 m * lo32 n)) = c"
  proof -
    have "unat (drop_bit 32 (lo32 m * lo32 n)) = (a0 * b0) div B"
      and "unat (lo32 (lo32 m * drop_bit 32 n)) = (a0 * b1) mod B"
      and "unat (lo32 (drop_bit 32 m * lo32 n)) = (a1 * b0) mod B"
      by (simp_all add: unat_hi32 unat_lo32 p0 p1 p2 B_def)
    moreover have "c < 2 ^ 64"
      using c3 by (simp add: B_def)
    ultimately show ?thesis
      by (simp add: unat_word_ariths c_def)
  qed
  have mn: "unat m * unat n = (a1 * B + a0) * (b1 * B + b0)"
    by (simp add: a0_def a1_def b0_def b1_def)
  have hh: "(unat m * unat n) div (B * B)
        = a1 * b1 + (a0 * b1) div B + (a1 * b0) div B + c div B"
    unfolding mn c_def using B(1) by (rule high_half)
  have "unat m * unat n < (B * B) * (B * B)"
    using m n by (rule mult_strict_mono') simp_all
  then have "(unat m * unat n) div (B * B) < B * B"
    by (simp add: less_mult_imp_div_less)
  then have "a1 * b1 + (a0 * b1) div B + (a1 * b0) div B + c div B < B * B"
    unfolding hh .
  then have total: "a1 * b1 + (a0 * b1) div B + (a1 * b0) div B + c div B < 2 ^ 64"
    by (simp only: B(2))
  have u1: "unat (drop_bit 32 (lo32 m * drop_bit 32 n)) = (a0 * b1) div B"
    and u2: "unat (drop_bit 32 (drop_bit 32 m * lo32 n)) = (a1 * b0) div B"
    and u3: "unat (drop_bit 32 (drop_bit 32 (lo32 m * lo32 n)
                              + lo32 (lo32 m * drop_bit 32 n)
                              + lo32 (drop_bit 32 m * lo32 n))) = c div B"
    by (simp_all only: unat_hi32 p1 p2 uc B_def)
  have "unat (drop_bit 32 m * drop_bit 32 n
               + drop_bit 32 (lo32 m * drop_bit 32 n)
               + drop_bit 32 (drop_bit 32 m * lo32 n)
               + drop_bit 32 (drop_bit 32 (lo32 m * lo32 n)
                              + lo32 (lo32 m * drop_bit 32 n)
                              + lo32 (drop_bit 32 m * lo32 n)))
        = a1 * b1 + (a0 * b1) div B + (a1 * b0) div B + c div B"
    using total unat_add4 [of "drop_bit 32 m * drop_bit 32 n"
        "drop_bit 32 (lo32 m * drop_bit 32 n)" "drop_bit 32 (drop_bit 32 m * lo32 n)"
        "drop_bit 32 (drop_bit 32 (lo32 m * lo32 n) + lo32 (lo32 m * drop_bit 32 n)
                      + lo32 (drop_bit 32 m * lo32 n))"]
    by (simp only: p3 u1 u2 u3)
  also have "\<dots> = (unat m * unat n) div (B * B)"
    by (rule hh [symmetric])
  finally show ?thesis
    by (simp only: B(2))
qed

subsection \<open>Montgomery reduction\<close>

lemma smc_mont_reduce64_cases:
  fixes x_lo x_hi n n_inv :: u64
  obtains t :: u64 where "unat t = (unat (x_lo * n_inv) * unat n) div 2 ^ 64"
    and "smc_mont_reduce64 int128 x_lo x_hi n n_inv = (if x_hi < t then x_hi - t + n else x_hi - t)"
proof (cases int128)
  case True
  show ?thesis
  proof (rule that)
    show "unat (ucast (drop_bit 64 ((ucast (x_lo * n_inv) :: u128) * (ucast n :: u128))) :: u64)
          = (unat (x_lo * n_inv) * unat n) div 2 ^ 64"
      by (rule unat_mul_hi_int128)
    show "smc_mont_reduce64 int128 x_lo x_hi n n_inv
          = (if x_hi < ucast (drop_bit 64 ((ucast (x_lo * n_inv) :: u128) * (ucast n :: u128)))
             then x_hi - ucast (drop_bit 64 ((ucast (x_lo * n_inv) :: u128) * (ucast n :: u128))) + n
             else x_hi - ucast (drop_bit 64 ((ucast (x_lo * n_inv) :: u128) * (ucast n :: u128))))"
      using True by (simp only: smc_mont_reduce64_def Let_def if_True)
  qed
next
  case False
  define m where "m = x_lo * n_inv"
  define t where "t = drop_bit 32 m * drop_bit 32 n
               + drop_bit 32 (lo32 m * drop_bit 32 n)
               + drop_bit 32 (drop_bit 32 m * lo32 n)
               + drop_bit 32 (drop_bit 32 (lo32 m * lo32 n)
                              + lo32 (lo32 m * drop_bit 32 n)
                              + lo32 (drop_bit 32 m * lo32 n))"
  show ?thesis
  proof (rule that)
    show "unat t = (unat (x_lo * n_inv) * unat n) div 2 ^ 64"
      unfolding t_def m_def [symmetric] by (rule unat_mul_hi_portable)
    show "smc_mont_reduce64 int128 x_lo x_hi n n_inv = (if x_hi < t then x_hi - t + n else x_hi - t)"
      using False by (simp only: smc_mont_reduce64_def Let_def if_False t_def m_def)
  qed
qed

lemma mod_eq_of_add_mult:
  fixes A X M N K :: nat
  assumes "A + M * N = X + N * K"
  shows "A mod N = X mod N"
proof -
  have "A mod N = (A + M * N) mod N"
    by simp
  also have "\<dots> = (X + N * K) mod N"
    by (simp only: assms)
  also have "\<dots> = X mod N"
    by simp
  finally show ?thesis .
qed

lemma smc_mont_reduce64_correct:
  fixes x_lo x_hi n n_inv :: u64
  assumes inv: "n * n_inv = 1" and hi: "x_hi < n"
  shows "unat (smc_mont_reduce64 int128 x_lo x_hi n n_inv) < unat n
         \<and> (unat (smc_mont_reduce64 int128 x_lo x_hi n n_inv) * 2 ^ 64) mod unat n
             = (unat x_hi * 2 ^ 64 + unat x_lo) mod unat n"
proof -
  define K :: nat where "K = 2 ^ 64"
  define M N H L where "M = unat (x_lo * n_inv)" and "N = unat n" and "H = unat x_hi" and "L = unat x_lo"
  define T where "T = (M * N) div K"
  obtain t :: u64 where t: "unat t = T"
    and red: "smc_mont_reduce64 int128 x_lo x_hi n n_inv = (if x_hi < t then x_hi - t + n else x_hi - t)"
    unfolding T_def M_def N_def K_def by (rule smc_mont_reduce64_cases)
  have K: "0 < K" "M < K" "N < K" "H < K"
    using unsigned_less [of "x_lo * n_inv"] unsigned_less [of n] unsigned_less [of x_hi]
    by (simp_all add: K_def M_def N_def H_def)
  have HN: "H < N"
    using hi by (simp add: word_less_nat_alt H_def N_def)
  have "x_lo * n_inv * n = x_lo * (n * n_inv)"
    by (simp only: ac_simps)
  then have "x_lo * n_inv * n = x_lo"
    by (simp add: inv)
  then have "unat (x_lo * n_inv * n) = L"
    by (simp add: L_def)
  then have low: "(M * N) mod K = L"
    by (simp add: unat_word_ariths M_def N_def K_def)
  have MN: "M * N = T * K + L"
    unfolding T_def low [symmetric] by simp
  have "M * N < K * N"
    using K(2) HN by simp
  then have TN: "T < N"
    unfolding T_def by (simp add: less_mult_imp_div_less mult.commute)
  show ?thesis
  proof (cases "x_hi < t")
    case True
    then have HT: "H < T"
      by (simp add: word_less_nat_alt t H_def)
    have "T \<le> H + N"
      using TN by simp
    then have "(of_nat (H + N - T) :: u64) = of_nat (H + N) - of_nat T"
      by (rule of_nat_diff)
    also have "\<dots> = x_hi - t + n"
      by (simp add: H_def N_def t [symmetric])
    finally have "x_hi - t + n = of_nat (H + N - T)"
      by simp
    moreover have "H + N - T < K"
      using HT K(3) by arith
    ultimately have r: "unat (x_hi - t + n) = H + N - T"
      by (simp add: unat_of_nat K_def)
    have "(H + N - T) * K + T * K = (H + N - T + T) * K"
      by (simp add: add_mult_distrib)
    also have "H + N - T + T = H + N"
      using \<open>T \<le> H + N\<close> by simp
    finally have eq: "(H + N - T) * K + T * K = (H + N) * K" .
    have "(H + N - T) * K + M * N = ((H + N - T) * K + T * K) + L"
      by (simp only: MN add.assoc)
    also have "\<dots> = (H + N) * K + L"
      by (simp only: eq)
    also have "\<dots> = (H * K + L) + N * K"
      by (simp add: add_mult_distrib)
    finally have "(H + N - T) * K + M * N = (H * K + L) + N * K" .
    then have "((H + N - T) * K) mod N = (H * K + L) mod N"
      by (rule mod_eq_of_add_mult)
    moreover have "H + N - T < N"
      using HT HN by arith
    ultimately show ?thesis
      using True by (simp add: red r K_def N_def H_def L_def)
  next
    case False
    then have TH: "T \<le> H"
      by (simp add: word_less_nat_alt t H_def)
    then have "t \<le> x_hi"
      by (simp add: word_le_nat_alt t H_def)
    then have r: "unat (x_hi - t) = H - T"
      by (simp add: unat_sub t H_def)
    have "(H - T) * K + T * K = (H - T + T) * K"
      by (simp add: add_mult_distrib)
    also have "H - T + T = H"
      using TH by simp
    finally have eq: "(H - T) * K + T * K = H * K" .
    have "(H - T) * K + M * N = ((H - T) * K + T * K) + L"
      by (simp only: MN add.assoc)
    also have "\<dots> = H * K + L"
      by (simp only: eq)
    also have "\<dots> = (H * K + L) + N * 0"
      by simp
    finally have "(H - T) * K + M * N = (H * K + L) + N * 0" .
    then have "((H - T) * K) mod N = (H * K + L) mod N"
      by (rule mod_eq_of_add_mult)
    moreover have "H - T < N"
      using HN by arith
    ultimately show ?thesis
      using False by (simp add: red r K_def N_def H_def L_def)
  qed
qed

lemma smc_mont_reduce64_builds_agree:
  "smc_mont_reduce64 True x_lo x_hi n n_inv = smc_mont_reduce64 False x_lo x_hi n n_inv"
proof -
  obtain t :: u64 where t: "unat t = (unat (x_lo * n_inv) * unat n) div 2 ^ 64"
    and rt: "smc_mont_reduce64 True x_lo x_hi n n_inv = (if x_hi < t then x_hi - t + n else x_hi - t)"
    by (rule smc_mont_reduce64_cases)
  obtain t' :: u64 where t': "unat t' = (unat (x_lo * n_inv) * unat n) div 2 ^ 64"
    and rt': "smc_mont_reduce64 False x_lo x_hi n n_inv = (if x_hi < t' then x_hi - t' + n else x_hi - t')"
    by (rule smc_mont_reduce64_cases)
  from t t' have "t = t'"
    by (simp add: word_unat_eq_iff)
  with rt rt' show ?thesis
    by simp
qed

lemma unat_prod128:
  fixes a b :: u64
  shows "unat ((ucast a :: u128) * (ucast b :: u128)) = unat a * unat b"
proof -
  have a: "unat a < 2 ^ 64" and b: "unat b < 2 ^ 64"
    using unsigned_less [of a] unsigned_less [of b] by simp_all
  have "unat a * unat b < 2 ^ 64 * 2 ^ 64"
    using a b by (rule mult_strict_mono') simp_all
  then have lt: "unat a * unat b < 2 ^ 128"
    by simp
  have "unat (ucast a :: u128) = unat a" and "unat (ucast b :: u128) = unat b"
    using a b by (simp_all add: unsigned_ucast_eq take_bit_eq_mod)
  then show ?thesis
    using lt by (simp add: unat_word_ariths)
qed

lemma unat_mul_lo_int128:
  fixes a b :: u64
  shows "unat (ucast ((ucast a :: u128) * (ucast b :: u128)) :: u64) = (unat a * unat b) mod 2 ^ 64"
  by (simp add: unsigned_ucast_eq take_bit_eq_mod unat_prod128)

lemma smc_mont_mul64_int128_correct:
  fixes a b n n_inv :: u64
  assumes inv: "n * n_inv = 1" and a: "a < n" and b: "b < n"
  shows "unat (smc_mont_mul64 True a b n n_inv) < unat n
         \<and> (unat (smc_mont_mul64 True a b n n_inv) * 2 ^ 64) mod unat n
             = (unat a * unat b) mod unat n"
proof -
  define lo :: u64 where "lo = ucast ((ucast a :: u128) * (ucast b :: u128))"
  define hi :: u64 where "hi = ucast (drop_bit 64 ((ucast a :: u128) * (ucast b :: u128)))"
  have lo: "unat lo = (unat a * unat b) mod 2 ^ 64"
    unfolding lo_def by (rule unat_mul_lo_int128)
  have hi: "unat hi = (unat a * unat b) div 2 ^ 64"
    unfolding hi_def by (rule unat_mul_hi_int128)
  have A: "unat a < unat n" and B: "unat b < unat n"
    using a b by (simp_all add: word_less_nat_alt)
  have "unat n < 2 ^ 64"
    using unsigned_less [of n] by simp
  with B have "unat b < 2 ^ 64"
    by simp
  with A have "unat a * unat b < unat n * 2 ^ 64"
    by (intro mult_strict_mono) simp_all
  then have "unat hi < unat n"
    by (simp add: hi less_mult_imp_div_less)
  then have "hi < n"
    by (simp add: word_less_nat_alt)
  with inv have "unat (smc_mont_reduce64 True lo hi n n_inv) < unat n
         \<and> (unat (smc_mont_reduce64 True lo hi n n_inv) * 2 ^ 64) mod unat n
             = (unat hi * 2 ^ 64 + unat lo) mod unat n"
    by (rule smc_mont_reduce64_correct)
  moreover have "unat hi * 2 ^ 64 + unat lo = unat a * unat b"
    by (simp add: lo hi)
  moreover have "smc_mont_mul64 True a b n n_inv = smc_mont_reduce64 True lo hi n n_inv"
    by (simp add: smc_mont_mul64_def Let_def lo_def hi_def)
  ultimately show ?thesis
    by simp
qed

lemma halves_unique:
  fixes h l h' l' K :: nat
  assumes "h * K + l = h' * K + l'" and "l < K" and "l' < K"
  shows "h = h' \<and> l = l'"
proof -
  have "(h * K + l) div K = h" and "(h' * K + l') div K = h'"
    using assms(2,3) by simp_all
  with assms(1) have "h = h'"
    by simp
  with assms(1) show ?thesis
    by simp
qed

section \<open>Trial division by prime inverses\<close>

lemma prime_numberI:
  assumes "1 < p" and "\<And>d. d dvd p \<Longrightarrow> d = 1 \<or> d = p"
  shows "prime_number p"
  using assms by (simp add: prime_number_def)

lemma not_prime_numberI:
  assumes "d dvd p" and "d \<noteq> 1" and "d \<noteq> p"
  shows "\<not> prime_number p"
  using assms by (auto simp: prime_number_def)

text \<open>A number with a proper divisor has one whose square does not exceed it.\<close>

lemma small_divisor:
  fixes n d :: nat
  assumes "d dvd n" and "d \<noteq> 1" and "d \<noteq> n" and "0 < n"
  obtains e where "e dvd n" and "2 \<le> e" and "e * e \<le> n" and "e \<noteq> n"
proof -
  from assms(1) obtain k where k: "n = d * k"
    by (auto simp: dvd_def)
  from k assms(4) have "d \<noteq> 0" and "k \<noteq> 0"
    by auto
  with assms(2) have d: "2 \<le> d"
    by simp
  from k assms(3) \<open>k \<noteq> 0\<close> have kk: "2 \<le> k"
    by (cases "k = 1") auto
  show thesis
  proof (cases "d \<le> k")
    case True
    then have "d * d \<le> n"
      by (simp add: k)
    with assms(1,3) d show thesis
      by (intro that [of d]) simp_all
  next
    case False
    then have "k * k \<le> n"
      by (simp add: k mult.commute)
    moreover have "k dvd n"
      by (simp add: k)
    moreover from d k \<open>k \<noteq> 0\<close> have "k \<noteq> n"
      by auto
    ultimately show thesis
      using kk by (intro that [of k]) simp_all
  qed
qed

lemma prime_number_small_iff:
  fixes n :: nat
  assumes "n < 361"
  shows "prime_number n \<longleftrightarrow> trial_prime n"
proof
  assume "prime_number n"
  then show "trial_prime n"
    unfolding trial_prime_def prime_number_def set_upt by auto
next
  assume "trial_prime n"
  then have r1: "1 < n" and r2: "\<And>d. 2 \<le> d \<Longrightarrow> d < 19 \<Longrightarrow> d dvd n \<Longrightarrow> d = n"
    unfolding trial_prime_def set_upt by auto
  show "prime_number n"
  proof (rule prime_numberI)
    show "1 < n"
      by (rule r1)
  next
    fix d
    assume d: "d dvd n"
    show "d = 1 \<or> d = n"
    proof (rule ccontr)
      assume "\<not> (d = 1 \<or> d = n)"
      with d r1 obtain e where e: "e dvd n" "2 \<le> e" "e * e \<le> n" "e \<noteq> n"
        by (auto elim: small_divisor)
      have "e < 19"
      proof (rule ccontr)
        assume "\<not> e < 19"
        then have "19 * 19 \<le> e * e"
          by (intro mult_mono) simp_all
        with e(3) assms show False
          by simp
      qed
      with e(2) e(1) have "e = n"
        by (intro r2)
      with e(4) show False
        by simp
    qed
  qed
qed

lemma filter_prime_number_small:
  assumes "b \<le> 361"
  shows "filter prime_number [a..<b] = filter trial_prime [a..<b]"
proof (rule filter_cong [OF refl])
  fix x
  assume "x \<in> set [a..<b]"
  then have "x < b"
    unfolding set_upt by simp
  with assms have "x < 361"
    by simp
  then show "prime_number x = trial_prime x"
    by (rule prime_number_small_iff)
qed

lemma trial_primes_1: "filter trial_prime [3..<60]
    = [3, 5, 7, 11, 13, 17, 19, 23, 29, 31, 37, 41, 43, 47, 53, 59]"
  by code_simp

lemma trial_primes_2: "filter trial_prime [60..<120]
    = [61, 67, 71, 73, 79, 83, 89, 97, 101, 103, 107, 109, 113]"
  by code_simp

lemma trial_primes_3: "filter trial_prime [120..<180]
    = [127, 131, 137, 139, 149, 151, 157, 163, 167, 173, 179]"
  by code_simp

lemma trial_primes_4: "filter trial_prime [180..<240]
    = [181, 191, 193, 197, 199, 211, 223, 227, 229, 233, 239]"
  by code_simp

lemma trial_primes_5: "filter trial_prime [240..<290]
    = [241, 251, 257, 263, 269, 271, 277, 281, 283]"
  by code_simp

lemma trial_primes_6: "filter trial_prime [290..<332]
    = [293, 307, 311, 313, 317, 331]"
  by code_simp

lemma upt_split: "i \<le> j \<Longrightarrow> j \<le> k \<Longrightarrow> [i..<k] = [i..<j] @ [j..<k]"
  by (metis le_Suc_ex upt_add_eq_append)

lemma primes_3_to_331:
  "filter prime_number [3..<332] =
    [3, 5, 7, 11, 13, 17, 19, 23, 29, 31, 37, 41, 43, 47, 53, 59, 61, 67, 71, 73, 79, 83, 89,
     97, 101, 103, 107, 109, 113, 127, 131, 137, 139, 149, 151, 157, 163, 167, 173, 179, 181,
     191, 193, 197, 199, 211, 223, 227, 229, 233, 239, 241, 251, 257, 263, 269, 271, 277, 281,
     283, 293, 307, 311, 313, 317, 331]"
proof -
  have "[3..<332] = [3..<60] @ [60..<120] @ [120..<180] @ [180..<240] @ [240..<290] @ [290..<(332::nat)]"
    by (simp only: upt_split [of 3 60 332] upt_split [of 60 120 332] upt_split [of 120 180 332]
        upt_split [of 180 240 332] upt_split [of 240 290 332])
  then have "filter trial_prime [3..<332]
      = filter trial_prime [3..<60] @ filter trial_prime [60..<120]
        @ filter trial_prime [120..<180] @ filter trial_prime [180..<240]
        @ filter trial_prime [240..<290] @ filter trial_prime [290..<332]"
    by (simp only: filter_append)
  moreover have "filter prime_number [3..<332] = filter trial_prime [3..<332]"
    by (rule filter_prime_number_small) simp
  ultimately show ?thesis
    by (simp only: trial_primes_1 trial_primes_2
        trial_primes_3 trial_primes_4 trial_primes_5 trial_primes_6 append.simps)
qed

lemma prime_inverse_table:
  "list_all2 (\<lambda>p p_inv. of_nat p * p_inv = (1 :: u64))
    [3, 5, 7, 11, 13, 17, 19, 23, 29, 31, 37, 41, 43, 47, 53, 59, 61, 67, 71, 73, 79, 83, 89,
     97, 101, 103, 107, 109, 113, 127, 131, 137, 139, 149, 151, 157, 163, 167, 173, 179, 181,
     191, 193, 197, 199, 211, 223, 227, 229, 233, 239, 241, 251, 257, 263, 269, 271, 277, 281,
     283, 293, 307, 311, 313, 317, 331]
    SMC_PRIME_INV64"
  by (simp add: SMC_PRIME_INV64_def)

text \<open>
  One step of the trial division, for any \<open>p\<close> up to 331 with its inverse: below the
  threshold \<open>\<lfloor>2 ^ 64 / 331\<rfloor>\<close> the product cannot wrap around unless \<open>p\<close> divides \<open>n\<close>.
\<close>

lemma trial_step:
  fixes n p_inv :: u64 and p :: nat
  assumes inv: "of_nat p * p_inv = (1 :: u64)"
    and p: "1 < p" "p \<le> 331"
    and n: "0 < unat n" "unat n < 55730344633563600"
  shows "(n * p_inv = 1 \<longleftrightarrow> unat n = p) \<and> (n * p_inv < n \<longleftrightarrow> p dvd unat n)"
proof -
  define N where "N = unat n"
  define Q where "Q = unat (n * p_inv)"
  have up: "unat (of_nat p :: u64) = p"
    using p(2) by (simp add: unat_of_nat)
  have revert: "n * p_inv * of_nat p = n"
  proof -
    have "n * p_inv * of_nat p = n * (of_nat p * p_inv)"
      by (simp only: ac_simps)
    then show ?thesis
      by (simp add: inv)
  qed
  have one: "n * p_inv = 1 \<longleftrightarrow> unat n = p"
  proof
    assume "n * p_inv = 1"
    with revert have "n = of_nat p"
      by simp
    then show "unat n = p"
      by (simp add: up)
  next
    assume "unat n = p"
    then have "n = of_nat p"
      by (simp add: word_unat_eq_iff up)
    then show "n * p_inv = 1"
      by (simp add: inv)
  qed
  have lt: "n * p_inv < n \<longleftrightarrow> p dvd unat n"
  proof
    assume "n * p_inv < n"
    then have QN: "Q < N"
      by (simp add: word_less_nat_alt Q_def N_def)
    have "Q * p \<le> N * 331"
      using QN p(2) by (intro mult_mono) simp_all
    also have "\<dots> < 2 ^ 64"
      using n(2) by (simp add: N_def)
    finally have small: "Q * p < 2 ^ 64" .
    have "unat (n * p_inv * of_nat p) = (Q * p) mod 2 ^ 64"
      by (simp add: unat_word_ariths Q_def up)
    with small have "unat (n * p_inv * of_nat p) = Q * p"
      by simp
    then have "N = Q * p"
      by (simp add: revert N_def)
    then show "p dvd unat n"
      by (simp add: N_def)
  next
    assume "p dvd unat n"
    then obtain q where q: "N = p * q"
      by (auto simp: N_def dvd_def)
    with p(1) n(1) have qN: "q < N"
      by (simp add: N_def)
    have "n = of_nat N"
      by (simp add: N_def)
    then have "n * p_inv = of_nat q * (of_nat p * p_inv)"
      by (simp add: q ac_simps)
    then have "n * p_inv = of_nat q"
      by (simp add: inv)
    moreover have "q < 2 ^ 64"
      using qN n(2) by (simp add: N_def)
    ultimately have "unat (n * p_inv) = q"
      by (simp add: unat_of_nat)
    with qN show "n * p_inv < n"
      by (simp add: word_less_nat_alt N_def)
  qed
  from one lt show ?thesis ..
qed

lemma trial_loop_sound:
  fixes n :: u64
  assumes tab: "list_all2 (\<lambda>p p_inv. of_nat p * p_inv = (1 :: u64) \<and> prime_number p \<and> p \<le> 331) ps invs"
    and n: "0 < unat n" "unat n < 55730344633563600"
  shows "(smc_trial_division64 n invs = Trial_Prime \<longrightarrow> prime_number (unat n))
       \<and> (smc_trial_division64 n invs = Trial_Composite \<longrightarrow> \<not> prime_number (unat n))
       \<and> (smc_trial_division64 n invs = Trial_Passed \<longrightarrow> (\<forall>p\<in>set ps. \<not> p dvd unat n))"
  using tab
proof (induction rule: list_all2_induct)
  case Nil
  show ?case
    by simp
next
  case (Cons p ps p_inv invs)
  from Cons.hyps(1) have inv: "of_nat p * p_inv = (1 :: u64)" and pr: "prime_number p" and le: "p \<le> 331"
    by simp_all
  from pr have p1: "1 < p"
    by (simp add: prime_number_def)
  have step: "(n * p_inv = 1 \<longleftrightarrow> unat n = p) \<and> (n * p_inv < n \<longleftrightarrow> p dvd unat n)"
    using inv p1 le n by (rule trial_step)
  show ?case
  proof (cases "n * p_inv = 1")
    case True
    with step pr show ?thesis
      by simp
  next
    case not1: False
    show ?thesis
    proof (cases "n * p_inv < n")
      case True
      with step not1 p1 have "p dvd unat n" "p \<noteq> 1" "p \<noteq> unat n"
        by auto
      then have "\<not> prime_number (unat n)"
        by (rule not_prime_numberI)
      with not1 True show ?thesis
        by simp
    next
      case False
      with step not1 Cons.IH show ?thesis
        by simp
    qed
  qed
qed

lemma small_primes_facts:
  assumes "p \<in> set (filter prime_number [3..<332])"
  shows "prime_number p \<and> p \<le> 331"
proof -
  from assms have "p \<in> set [3..<332] \<and> prime_number p"
    by (simp only: set_filter mem_Collect_eq)
  then show ?thesis
    unfolding set_upt by simp
qed

lemma prime_inverse_table_primes:
  "list_all2 (\<lambda>p p_inv. of_nat p * p_inv = (1 :: u64)) (filter prime_number [3..<332]) SMC_PRIME_INV64"
  unfolding primes_3_to_331 by (rule prime_inverse_table)

lemma prime_inverse_table_full:
  "list_all2 (\<lambda>p p_inv. of_nat p * p_inv = (1 :: u64) \<and> prime_number p \<and> p \<le> 331)
     (filter prime_number [3..<332]) SMC_PRIME_INV64"
proof -
  have len: "length (filter prime_number [3..<332]) = length SMC_PRIME_INV64"
    using prime_inverse_table_primes by (rule list_all2_lengthD)
  show ?thesis
    unfolding list_all2_conv_all_nth
  proof (intro conjI allI impI)
    show "length (filter prime_number [3..<332]) = length SMC_PRIME_INV64"
      by (rule len)
  next
    fix i
    assume i: "i < length (filter prime_number [3..<332])"
    then show "of_nat (filter prime_number [3..<332] ! i) * SMC_PRIME_INV64 ! i = (1 :: u64)"
      using prime_inverse_table_primes by (simp add: list_all2_conv_all_nth)
    from i have "filter prime_number [3..<332] ! i \<in> set (filter prime_number [3..<332])"
      by (rule nth_mem)
    then have "prime_number (filter prime_number [3..<332] ! i) \<and> filter prime_number [3..<332] ! i \<le> 331"
      by (rule small_primes_facts)
    then show "prime_number (filter prime_number [3..<332] ! i)"
      and "filter prime_number [3..<332] ! i \<le> 331"
      by simp_all
  qed
qed


section \<open>The claims about the Montgomery engine\<close>

text \<open>
  Claim C2. For every odd 64-bit \<open>n\<close>, the value of \<open>smc_mont_inv64 n\<close> (the start
  \<open>(3 * n) XOR 2\<close> followed by four steps \<open>est = (2 - est * n) * est\<close>, all wrapping
  modulo \<open>2 ^ 64\<close>) is the inverse of \<open>n\<close> modulo \<open>2 ^ 64\<close>: the product
  \<open>n * smc_mont_inv64 n\<close>, taken in 64-bit words, is 1.
\<close>

theorem smc_mont_inv64_inverse:
  fixes n :: u64
  assumes "odd (unat n)"
  shows "n * smc_mont_inv64 n = 1"
  using assms by (rule smc_mont_inv64_correct)

theorem smc_mont_inv64_inverse_witness:
  "odd (unat (1000000007 :: u64)) \<and> 1000000007 * smc_mont_inv64 1000000007 = 1"
proof -
  have h: "odd (unat (1000000007 :: u64))"
    by simp
  show ?thesis
    using h smc_mont_inv64_inverse [OF h] by simp
qed

text \<open>
  Claim C10. For every odd 64-bit \<open>n \<ge> 3\<close>, \<open>smc_mont_one64 n = (UINT64_MAX mod n) + 1\<close>
  equals \<open>2 ^ 64 mod n\<close> and lies in \<open>[1, n - 1]\<close>; so \<open>neg_one = n - one\<close> in
  \<open>smc_mont_sprp64\<close> is already below \<open>n\<close>, the test \<open>neg_one >= n\<close> is false and the
  correction \<open>neg_one -= n\<close> leaves \<open>neg_one\<close> as it is.
\<close>

theorem smc_mont_one64_range_and_neg_one:
  fixes n :: u64
  assumes "odd (unat n)" and "3 \<le> n"
  shows "unat (smc_mont_one64 n) = 2 ^ 64 mod unat n
         \<and> 1 \<le> smc_mont_one64 n \<and> smc_mont_one64 n \<le> n - 1
         \<and> n - smc_mont_one64 n < n
         \<and> (if n - smc_mont_one64 n \<ge> n then n - smc_mont_one64 n - n else n - smc_mont_one64 n)
             = n - smc_mont_one64 n"
proof -
  have r: "1 \<le> smc_mont_one64 n \<and> smc_mont_one64 n \<le> n - 1 \<and> n - smc_mont_one64 n < n"
    using assms by (rule smc_mont_one64_range)
  then have "\<not> n \<le> n - smc_mont_one64 n"
    by (simp add: not_le)
  with r unat_smc_mont_one64 [OF assms] show ?thesis
    by simp
qed

theorem smc_mont_one64_range_and_neg_one_witness:
  "odd (unat (1000000007 :: u64)) \<and> 3 \<le> (1000000007 :: u64)
   \<and> unat (smc_mont_one64 1000000007) = 2 ^ 64 mod unat (1000000007 :: u64)
   \<and> 1000000007 - smc_mont_one64 1000000007 < 1000000007"
proof -
  have h: "odd (unat (1000000007 :: u64))" "3 \<le> (1000000007 :: u64)"
    by simp_all
  show ?thesis
    using h smc_mont_one64_range_and_neg_one [OF h] by simp
qed

text \<open>
  Claim C3. For every odd 64-bit modulus \<open>n \<ge> 3\<close> with \<open>n_inv = smc_mont_inv64 n\<close> and
  every 128-bit \<open>x = x_hi * 2 ^ 64 + x_lo\<close> below \<open>n * 2 ^ 64\<close>, the result \<open>r\<close> of
  \<open>smc_mont_reduce64 x_lo x_hi n n_inv\<close>, in either build, satisfies
  \<open>r * 2 ^ 64 \<equiv> x (mod n)\<close>, that is \<open>r \<equiv> x * ri (mod n)\<close> for every inverse \<open>ri\<close> of
  \<open>2 ^ 64\<close> modulo \<open>n\<close>, and \<open>r < 2 * n\<close>; when \<open>x\<close> is the product of two operands
  \<open>a, b < n\<close>, then \<open>r < n\<close>, and \<open>r\<close> is what \<open>smc_mont_mul64 a b\<close> returns in the build
  that forms the product in a \<open>__uint128_t\<close>.
\<close>

theorem smc_mont_reduce64_spec:
  fixes n x_lo x_hi :: u64
  assumes "odd (unat n)" and "3 \<le> n"
    and "unat x_hi * 2 ^ 64 + unat x_lo < unat n * 2 ^ 64"
  shows "(unat (smc_mont_reduce64 int128 x_lo x_hi n (smc_mont_inv64 n)) * 2 ^ 64) mod unat n
           = (unat x_hi * 2 ^ 64 + unat x_lo) mod unat n
         \<and> (\<forall>ri. (2 ^ 64 * ri) mod unat n = 1 \<longrightarrow>
               unat (smc_mont_reduce64 int128 x_lo x_hi n (smc_mont_inv64 n)) mod unat n
                 = ((unat x_hi * 2 ^ 64 + unat x_lo) * ri) mod unat n)
         \<and> unat (smc_mont_reduce64 int128 x_lo x_hi n (smc_mont_inv64 n)) < 2 * unat n
         \<and> (\<forall>a b. a < n \<and> b < n \<and> unat x_hi * 2 ^ 64 + unat x_lo = unat a * unat b \<longrightarrow>
               smc_mont_reduce64 int128 x_lo x_hi n (smc_mont_inv64 n) < n
               \<and> smc_mont_mul64 True a b n (smc_mont_inv64 n)
                   = smc_mont_reduce64 int128 x_lo x_hi n (smc_mont_inv64 n))"
proof -
  define r where "r = smc_mont_reduce64 int128 x_lo x_hi n (smc_mont_inv64 n)"
  define X where "X = unat x_hi * 2 ^ 64 + unat x_lo"
  define N where "N = unat n"
  have inv: "n * smc_mont_inv64 n = 1"
    using assms(1) by (rule smc_mont_inv64_correct)
  have "unat x_hi * 2 ^ 64 < unat n * 2 ^ 64"
    using assms(3) by simp
  then have hi: "x_hi < n"
    by (simp add: word_less_nat_alt)
  have main: "unat r < N \<and> (unat r * 2 ^ 64) mod N = X mod N"
    unfolding r_def N_def X_def using inv hi by (rule smc_mont_reduce64_correct)
  have resid: "unat r mod N = (X * ri) mod N" if ri: "(2 ^ 64 * ri) mod N = 1" for ri
  proof -
    have "(X * ri) mod N = ((X mod N) * ri) mod N"
      by (simp add: mod_mult_left_eq)
    also have "\<dots> = (((unat r * 2 ^ 64) mod N) * ri) mod N"
      using main by simp
    also have "\<dots> = (unat r * 2 ^ 64 * ri) mod N"
      by (simp add: mod_mult_left_eq)
    also have "\<dots> = (unat r * ((2 ^ 64 * ri) mod N)) mod N"
      by (simp add: mod_mult_right_eq mult.assoc)
    also have "\<dots> = unat r mod N"
      by (simp only: ri mult_1_right)
    finally show ?thesis
      by simp
  qed
  have prod: "r < n \<and> smc_mont_mul64 True a b n (smc_mont_inv64 n) = r"
    if ab: "a < n \<and> b < n \<and> X = unat a * unat b" for a b
  proof -
    define p where "p = (ucast a :: u128) * (ucast b :: u128)"
    have lo: "unat (ucast p :: u64) = (unat a * unat b) mod 2 ^ 64"
      unfolding p_def by (rule unat_mul_lo_int128)
    have hi: "unat (ucast (drop_bit 64 p) :: u64) = (unat a * unat b) div 2 ^ 64"
      unfolding p_def by (rule unat_mul_hi_int128)
    have "unat (ucast (drop_bit 64 p) :: u64) * 2 ^ 64 + unat (ucast p :: u64)
          = unat x_hi * 2 ^ 64 + unat x_lo"
      using ab by (simp add: lo hi X_def)
    moreover have "unat (ucast p :: u64) < 2 ^ 64" and "unat x_lo < 2 ^ 64"
      using unsigned_less [of "ucast p :: u64"] unsigned_less [of x_lo] by simp_all
    ultimately have "unat (ucast (drop_bit 64 p) :: u64) = unat x_hi
        \<and> unat (ucast p :: u64) = unat x_lo"
      by (rule halves_unique)
    then have "ucast (drop_bit 64 p) = x_hi" and "ucast p = x_lo"
      by (simp_all add: word_unat_eq_iff)
    then have "smc_mont_mul64 True a b n (smc_mont_inv64 n)
               = smc_mont_reduce64 True x_lo x_hi n (smc_mont_inv64 n)"
      by (simp add: smc_mont_mul64_def Let_def p_def)
    also have "\<dots> = r"
      unfolding r_def by (cases int128) (simp_all add: smc_mont_reduce64_builds_agree)
    finally show ?thesis
      using main by (simp add: word_less_nat_alt N_def)
  qed
  from main have "unat r < 2 * N"
    by simp
  with main resid prod show ?thesis
    unfolding r_def X_def N_def by blast
qed

theorem smc_mont_reduce64_spec_witness:
  "odd (unat (7 :: u64)) \<and> 3 \<le> (7 :: u64)
   \<and> unat (2 :: u64) * 2 ^ 64 + unat (5 :: u64) < unat (7 :: u64) * 2 ^ 64
   \<and> (unat (smc_mont_reduce64 False 5 2 7 (smc_mont_inv64 7)) * 2 ^ 64) mod unat (7 :: u64)
       = (unat (2 :: u64) * 2 ^ 64 + unat (5 :: u64)) mod unat (7 :: u64)"
proof -
  have h: "odd (unat (7 :: u64))" "3 \<le> (7 :: u64)"
    "unat (2 :: u64) * 2 ^ 64 + unat (5 :: u64) < unat (7 :: u64) * 2 ^ 64"
    by simp_all
  from smc_mont_reduce64_spec [OF h, of False]
  have "(unat (smc_mont_reduce64 False 5 2 7 (smc_mont_inv64 7)) * 2 ^ 64) mod unat (7 :: u64)
       = (unat (2 :: u64) * 2 ^ 64 + unat (5 :: u64)) mod unat (7 :: u64)"
    by (rule conjunct1)
  with h show ?thesis
    by blast
qed

section \<open>The claim about the trial division\<close>

text \<open>
  Claim C4. The 66 constants of \<open>SMC_PRIME_INV64\<close> are, in order, the inverses modulo
  \<open>2 ^ 64\<close> of the primes from 3 to 331. For every odd \<open>n\<close> with
  \<open>9 \<le> n < 55730344633563600\<close> and every entry \<open>p_inv\<close> of the table, with its prime
  \<open>p\<close>: \<open>n * p_inv\<close> (wrapping) is 1 exactly when \<open>n = p\<close>, and is below \<open>n\<close> exactly
  when \<open>p\<close> divides \<open>n\<close>. Hence a verdict of the trial-division loop is right: when it
  returns "prime" \<open>n\<close> is prime, when it returns "composite" \<open>n\<close> is not.
\<close>

theorem smc_prime_inv64_trial_division:
  fixes n :: u64
  assumes "odd (unat n)" and "9 \<le> n" and "n < 55730344633563600"
  shows "length SMC_PRIME_INV64 = SMC_NUM_PRIME_INV64
       \<and> list_all2 (\<lambda>p p_inv. of_nat p * p_inv = (1 :: u64))
            (filter prime_number [3..<332]) SMC_PRIME_INV64
       \<and> (\<forall>i<SMC_NUM_PRIME_INV64.
             (n * SMC_PRIME_INV64 ! i = 1 \<longleftrightarrow> unat n = filter prime_number [3..<332] ! i)
           \<and> (n * SMC_PRIME_INV64 ! i < n \<longleftrightarrow> filter prime_number [3..<332] ! i dvd unat n))
       \<and> (smc_trial_division64 n SMC_PRIME_INV64 = Trial_Prime \<longrightarrow> prime_number (unat n))
       \<and> (smc_trial_division64 n SMC_PRIME_INV64 = Trial_Composite \<longrightarrow> \<not> prime_number (unat n))"
proof -
  have n: "0 < unat n" "unat n < 55730344633563600"
    using assms(2,3) by (simp_all add: word_le_nat_alt word_less_nat_alt)
  have len: "length SMC_PRIME_INV64 = SMC_NUM_PRIME_INV64"
    by (simp add: SMC_PRIME_INV64_def SMC_NUM_PRIME_INV64_def)
  have len': "length (filter prime_number [3..<332]) = SMC_NUM_PRIME_INV64"
    using prime_inverse_table_primes len by (simp add: list_all2_lengthD)
  have step: "(n * SMC_PRIME_INV64 ! i = 1 \<longleftrightarrow> unat n = filter prime_number [3..<332] ! i)
           \<and> (n * SMC_PRIME_INV64 ! i < n \<longleftrightarrow> filter prime_number [3..<332] ! i dvd unat n)"
    if "i < SMC_NUM_PRIME_INV64" for i
  proof -
    from that len' have i: "i < length (filter prime_number [3..<332])"
      by simp
    with prime_inverse_table_full
    have "of_nat (filter prime_number [3..<332] ! i) * SMC_PRIME_INV64 ! i = (1 :: u64)"
      and pr: "prime_number (filter prime_number [3..<332] ! i)"
      and "filter prime_number [3..<332] ! i \<le> 331"
      by (simp_all add: list_all2_conv_all_nth)
    moreover from pr have "1 < filter prime_number [3..<332] ! i"
      by (simp add: prime_number_def)
    ultimately show ?thesis
      using n by (intro trial_step)
  qed
  have loop: "(smc_trial_division64 n SMC_PRIME_INV64 = Trial_Prime \<longrightarrow> prime_number (unat n))
       \<and> (smc_trial_division64 n SMC_PRIME_INV64 = Trial_Composite \<longrightarrow> \<not> prime_number (unat n))
       \<and> (smc_trial_division64 n SMC_PRIME_INV64 = Trial_Passed
            \<longrightarrow> (\<forall>p\<in>set (filter prime_number [3..<332]). \<not> p dvd unat n))"
    using prime_inverse_table_full n by (rule trial_loop_sound)
  from len prime_inverse_table_primes step loop show ?thesis
    by blast
qed

theorem smc_prime_inv64_trial_division_witness:
  "odd (unat (9797 :: u64)) \<and> 9 \<le> (9797 :: u64) \<and> (9797 :: u64) < 55730344633563600
   \<and> smc_trial_division64 9797 SMC_PRIME_INV64 = Trial_Composite
   \<and> \<not> prime_number (unat (9797 :: u64))"
proof -
  have h: "odd (unat (9797 :: u64))" "9 \<le> (9797 :: u64)" "(9797 :: u64) < 55730344633563600"
    by simp_all
  have ev: "smc_trial_division64 9797 SMC_PRIME_INV64 = Trial_Composite"
    by (simp add: SMC_PRIME_INV64_def)
  from smc_prime_inv64_trial_division [OF h]
  have "smc_trial_division64 9797 SMC_PRIME_INV64 = Trial_Composite
        \<longrightarrow> \<not> prime_number (unat (9797 :: u64))"
    by blast
  with h ev show ?thesis
    by blast
qed

end
